theory Spec2Isabelle
  imports Main "HOL-Library.Word" "HOL-Library.AList"
begin

unbundle bit_operations_syntax

section \<open>The N-MNIST loader (evis/datasets/nmnist.py)\<close>

subsection \<open>Values and errors\<close>

type_synonym uint8 = "8 word"
type_synonym uint32 = "32 word"

text \<open>
  Every exception the loader can raise is a value. \<open>OSError\<close> stands for the errors of
  the file system calls (file not found, not a directory, permission denied).
\<close>

datatype error =
    AssertionError
  | RuntimeError string
  | ValueError
  | KeyError string
  | OSError

text \<open>The dictionary \<open>event_data\<close> with its four keys, as it is handed to \<open>np.savez\<close>.\<close>

record event_data =
  ev_x :: "uint32 list"
  ev_y :: "uint32 list"
  ev_p :: "uint32 list"
  ev_ts :: "uint32 list"

subsection \<open>The numpy operations of the decoder\<close>

text \<open>
  \<open>a[start::step]\<close> on a one-dimensional array: the elements at \<open>start\<close>,
  \<open>start + step\<close>, ... below the length; their number is
  \<open>\<lceil>(len - start) / step\<rceil>\<close>, and 0 when \<open>start\<close> is not below the
  length. The decoder only uses step 5.
\<close>

definition slice_from :: "nat \<Rightarrow> nat \<Rightarrow> 'a list \<Rightarrow> 'a list" where
  "slice_from start step a =
     map (\<lambda>i. a ! (start + i * step))
       [0 ..< (length a - start + (step - 1)) div step]"

text \<open>
  An elementwise binary operator on two one-dimensional arrays. Shapes that differ are
  broadcast when one of them is 1, and raise \<open>ValueError\<close> otherwise.
\<close>

definition np_binop ::
  "('a \<Rightarrow> 'b \<Rightarrow> 'c) \<Rightarrow> 'a list \<Rightarrow> 'b list \<Rightarrow> error + 'c list" where
  "np_binop f a b =
     (if length a = length b then Inr (map2 f a b)
      else if length a = 1 then Inr (map (f (hd a)) b)
      else if length b = 1 then Inr (map (\<lambda>v. f v (hd b)) a)
      else Inl ValueError)"

subsection \<open>decode_binary_to_npz: the computation on the bytes of the file\<close>

text \<open>
  Lines 70 to 79: the bytes are widened to \<open>uint32\<close>, sliced with stride 5, and the
  polarity and the timestamp are unpacked. The two \<open>|\<close> of the timestamp associate
  to the left.
\<close>

definition decode_events :: "uint8 list \<Rightarrow> error + event_data" where
  "decode_events bytes =
     (let data = map ucast bytes :: uint32 list;
          x = slice_from 0 5 data;
          y = slice_from 1 5 data;
          remaining_data = slice_from 2 5 data;
          p = map (\<lambda>v. drop_bit 7 (v AND 128)) remaining_data
      in case np_binop (OR) (map (\<lambda>v. push_bit 16 (v AND 127)) remaining_data)
                (map (push_bit 8) (slice_from 3 5 data)) of
           Inl e \<Rightarrow> Inl e
         | Inr hi \<Rightarrow>
             (case np_binop (OR) hi (slice_from 4 5 data) of
                Inl e \<Rightarrow> Inl e
              | Inr ts \<Rightarrow> Inr \<lparr>ev_x = x, ev_y = y, ev_p = p, ev_ts = ts\<rparr>))"

subsection \<open>The file system and the collaborators\<close>

text \<open>
  A path is the list of its parts, as \<open>pathlib\<close> keeps it; \<open>p / name\<close> appends a
  part. The world holds the tree (a file has its bytes), the paths where a write is
  refused, the file system calls made so far in order, and what was printed. A call that
  fails raises \<open>OSError\<close> and leaves the tree as it was.
\<close>

type_synonym path = "string list"

datatype node = Dir | File "uint8 list"

datatype access =
    IsDir path
  | Iterdir path
  | Mkdir path
  | Open path
  | Save path
  | Unlink path

record world =
  nodes :: "(path \<times> node) list"
  unwritable :: "path list"
  accesses :: "access list"
  stdout :: "string list"

definition touch :: "access \<Rightarrow> world \<Rightarrow> world" where
  "touch a w = w\<lparr>accesses := accesses w @ [a]\<rparr>"

definition is_dir :: "path \<Rightarrow> world \<Rightarrow> bool \<times> world" where
  "is_dir p w = (map_of (nodes w) p = Some Dir, touch (IsDir p) w)"

text \<open>The children of a directory, listed when the loop over them starts.\<close>

definition iterdir :: "path \<Rightarrow> world \<Rightarrow> (error + path list) \<times> world" where
  "iterdir p w =
     (if map_of (nodes w) p = Some Dir
      then (Inr (remdups (filter (\<lambda>q. q \<noteq> [] \<and> butlast q = p) (map fst (nodes w)))),
            touch (Iterdir p) w)
      else (Inl OSError, touch (Iterdir p) w))"

text \<open>\<open>mkdir(parents=True, exist_ok=True)\<close>: every missing ancestor is created.\<close>

definition mkdir_parents :: "path \<Rightarrow> world \<Rightarrow> (error + unit) \<times> world" where
  "mkdir_parents p w =
     (let w1 = touch (Mkdir p) w;
          ancestors = map (\<lambda>k. take k p) [1 ..< Suc (length p)]
      in if \<exists>q \<in> set ancestors.
              (case map_of (nodes w) q of
                 Some (File _) \<Rightarrow> True
               | Some Dir \<Rightarrow> False
               | None \<Rightarrow> q \<in> set (unwritable w))
         then (Inl OSError, w1)
         else (Inr (),
               w1\<lparr>nodes := foldl (\<lambda>ns q. if map_of ns q = None then ns @ [(q, Dir)] else ns)
                                (nodes w) ancestors\<rparr>))"

text \<open>\<open>open(path, "rb")\<close> followed by \<open>np.fromfile\<close>: all the bytes of the file.\<close>

definition open_rb :: "path \<Rightarrow> world \<Rightarrow> (error + uint8 list) \<times> world" where
  "open_rb p w =
     (case map_of (nodes w) p of
        Some (File bytes) \<Rightarrow> (Inr bytes, touch (Open p) w)
      | _ \<Rightarrow> (Inl OSError, touch (Open p) w))"

definition ends_with :: "string \<Rightarrow> string \<Rightarrow> bool" where
  "ends_with s suffix = (length suffix \<le> length s \<and> drop (length s - length suffix) s = suffix)"

text \<open>
  \<open>np.savez\<close> appends \<open>.npz\<close> to a file name that does not end with it, and writes the
  four arrays in its archive format. The format belongs to numpy: it is the parameter
  \<open>npz_format\<close>.
\<close>

definition savez ::
  "(event_data \<Rightarrow> uint8 list) \<Rightarrow> path \<Rightarrow> event_data \<Rightarrow> world \<Rightarrow> (error + unit) \<times> world" where
  "savez npz_format file arrays w =
     (let target = (if file = [] \<or> ends_with (last file) ''.npz'' then file
                    else butlast file @ [last file @ ''.npz''])
      in if target = [] \<or> target \<in> set (unwritable w)
            \<or> map_of (nodes w) (butlast target) \<noteq> Some Dir
            \<or> map_of (nodes w) target = Some Dir
         then (Inl OSError, touch (Save target) w)
         else (Inr (),
               (touch (Save target) w)
                 \<lparr>nodes := AList.update target (File (npz_format arrays)) (nodes w)\<rparr>))"

definition unlink :: "path \<Rightarrow> world \<Rightarrow> (error + unit) \<times> world" where
  "unlink p w =
     (case map_of (nodes w) p of
        Some (File _) \<Rightarrow>
          if p \<in> set (unwritable w) then (Inl OSError, touch (Unlink p) w)
          else (Inr (), (touch (Unlink p) w)\<lparr>nodes := AList.delete p (nodes w)\<rparr>)
      | _ \<Rightarrow> (Inl OSError, touch (Unlink p) w))"

text \<open>
  \<open>download_and_extract_archive\<close> of torchvision is not part of the repository: it is
  a parameter, called with the four keyword arguments.
\<close>

record download_args =
  url :: string
  download_root :: path
  filename :: string
  md5 :: string

type_synonym downloader = "download_args \<Rightarrow> world \<Rightarrow> (error + unit) \<times> world"

subsection \<open>Strings\<close>

definition upper_char :: "char \<Rightarrow> char" where
  "upper_char c =
     (let k = of_char c :: nat in if 97 \<le> k \<and> k \<le> 122 then char_of (k - 32) else c)"

definition lower_char :: "char \<Rightarrow> char" where
  "lower_char c =
     (let k = of_char c :: nat in if 65 \<le> k \<and> k \<le> 90 then char_of (k + 32) else c)"

text \<open>\<open>str.capitalize\<close> on ASCII: the first character upper case, the others lower case.\<close>

definition capitalize :: "string \<Rightarrow> string" where
  "capitalize s = (case s of [] \<Rightarrow> [] | c # cs \<Rightarrow> upper_char c # map lower_char cs)"

text \<open>\<open>name.split(".")[0]\<close>: the part of the name before its first dot.\<close>

definition split_dot_0 :: "string \<Rightarrow> string" where
  "split_dot_0 name = takeWhile (\<lambda>c. c \<noteq> CHR ''.'') name"

subsection \<open>The class NMNIST\<close>

definition base_foler :: string where
  "base_foler = ''NMNIST''"

definition urls :: "string \<rightharpoonup> string" where
  "urls =
     [''train'' \<mapsto> ''https://data.mendeley.com/public-files/datasets/468j46mzdv/files/39c25547-014b-4137-a934-9d29fa53c7a0/file_downloaded'',
      ''test'' \<mapsto> ''https://data.mendeley.com/public-files/datasets/468j46mzdv/files/05a4d654-7e03-4c15-bdfa-9bb2bcbea494/file_downloaded'']"

definition md5s :: "string \<rightharpoonup> string" where
  "md5s =
     [''train'' \<mapsto> ''20959b8e626244a1b502305a9e6e2031'',
      ''test'' \<mapsto> ''69ca8762b2fe404d9b9bad1103e97832'']"

text \<open>The attributes \<open>root\<close>, \<open>_split\<close> and \<open>_base_folder\<close> of an instance.\<close>

record nmnist =
  root :: path
  split :: string
  base_folder :: path

definition check_exist :: "nmnist \<Rightarrow> world \<Rightarrow> bool \<times> world" where
  "check_exist self w = is_dir (base_folder self @ [capitalize (split self)]) w"

definition download :: "downloader \<Rightarrow> nmnist \<Rightarrow> world \<Rightarrow> (error + unit) \<times> world" where
  "download download_and_extract_archive self w =
     (case check_exist self w of
        (found, w1) \<Rightarrow>
          if \<not> found then
            (case urls (split self) of
               None \<Rightarrow> (Inl (KeyError (split self)), w1)
             | Some u \<Rightarrow>
                 (case md5s (split self) of
                    None \<Rightarrow> (Inl (KeyError (split self)), w1)
                  | Some m \<Rightarrow>
                      download_and_extract_archive
                        \<lparr>url = u, download_root = base_folder self,
                         filename = split self @ ''.zip'', md5 = m\<rparr> w1))
          else (Inr (), w1))"

text \<open>
  \<open>__init__\<close>. The \<open>assert\<close> raises \<open>AssertionError\<close> (the interpreter runs with
  assertions on, its default); \<open>split\<close> is a string, as the docstring asks.
\<close>

definition init ::
  "downloader \<Rightarrow> path \<Rightarrow> string \<Rightarrow> bool \<Rightarrow> world \<Rightarrow> (error + nmnist) \<times> world" where
  "init download_and_extract_archive root_arg split_arg download_arg w =
     (if split_arg \<notin> {''train'', ''test''} then (Inl AssertionError, w)
      else
        let self = \<lparr>root = root_arg, split = split_arg, base_folder = root_arg @ [base_foler]\<rparr>
        in case (if download_arg then download download_and_extract_archive self w
                 else (Inr (), w)) of
             (Inl e, w1) \<Rightarrow> (Inl e, w1)
           | (Inr _, w1) \<Rightarrow>
               (case check_exist self w1 of
                  (found, w2) \<Rightarrow>
                    if \<not> found
                    then (Inl (RuntimeError
                            ''Dataset not found, you can use `download=True` to download it.''), w2)
                    else (Inr self, w2)))"

text \<open>\<open>decode_binary_to_npz\<close>: read the file, decode, write the archive.\<close>

definition decode_binary_to_npz ::
  "(event_data \<Rightarrow> uint8 list) \<Rightarrow> path \<Rightarrow> path \<Rightarrow> world \<Rightarrow> (error + unit) \<times> world" where
  "decode_binary_to_npz npz_format file_decode_path npz_file_path w =
     (case open_rb file_decode_path w of
        (Inl e, w1) \<Rightarrow> (Inl e, w1)
      | (Inr bytes, w1) \<Rightarrow>
          (case decode_events bytes of
             Inl e \<Rightarrow> (Inl e, w1)
           | Inr event_data \<Rightarrow> savez npz_format npz_file_path event_data w1))"

text \<open>The body of the inner loop of \<open>decode\<close> (lines 99 to 104): one file.\<close>

definition target_file :: "path \<Rightarrow> path \<Rightarrow> path" where
  "target_file target_class_dir bin_file =
     target_class_dir @ [split_dot_0 (last bin_file) @ ''.npz'']"

definition decode_file ::
  "(event_data \<Rightarrow> uint8 list) \<Rightarrow> path \<Rightarrow> path \<Rightarrow> world \<Rightarrow> (error + unit) \<times> world" where
  "decode_file npz_format target_class_dir bin_file w =
     (case decode_binary_to_npz npz_format bin_file (target_file target_class_dir bin_file) w of
        (Inl e, w1) \<Rightarrow> (Inl e, w1)
      | (Inr _, w1) \<Rightarrow> unlink bin_file w1)"

fun decode_files ::
  "(event_data \<Rightarrow> uint8 list) \<Rightarrow> path \<Rightarrow> path list \<Rightarrow> world \<Rightarrow> (error + unit) \<times> world" where
  "decode_files npz_format target_class_dir [] w = (Inr (), w)"
| "decode_files npz_format target_class_dir (bin_file # rest) w =
     (case decode_file npz_format target_class_dir bin_file w of
        (Inl e, w1) \<Rightarrow> (Inl e, w1)
      | (Inr _, w1) \<Rightarrow> decode_files npz_format target_class_dir rest w1)"

text \<open>The body of the outer loop (lines 96 to 104): one class directory.\<close>

definition decode_class_dir ::
  "(event_data \<Rightarrow> uint8 list) \<Rightarrow> path \<Rightarrow> path \<Rightarrow> world \<Rightarrow> (error + unit) \<times> world" where
  "decode_class_dir npz_format target_dir class_dir_name w =
     (let target_class_dir = target_dir @ [last class_dir_name]
      in case mkdir_parents target_class_dir w of
           (Inl e, w1) \<Rightarrow> (Inl e, w1)
         | (Inr _, w1) \<Rightarrow>
             (case iterdir class_dir_name w1 of
                (Inl e, w2) \<Rightarrow> (Inl e, w2)
              | (Inr bin_files, w2) \<Rightarrow> decode_files npz_format target_class_dir bin_files w2))"

fun decode_class_dirs ::
  "(event_data \<Rightarrow> uint8 list) \<Rightarrow> path \<Rightarrow> path list \<Rightarrow> world \<Rightarrow> (error + unit) \<times> world" where
  "decode_class_dirs npz_format target_dir [] w = (Inr (), w)"
| "decode_class_dirs npz_format target_dir (class_dir_name # rest) w =
     (case decode_class_dir npz_format target_dir class_dir_name w of
        (Inl e, w1) \<Rightarrow> (Inl e, w1)
      | (Inr _, w1) \<Rightarrow> decode_class_dirs npz_format target_dir rest w1)"

definition decode :: "(event_data \<Rightarrow> uint8 list) \<Rightarrow> nmnist \<Rightarrow> world \<Rightarrow> (error + unit) \<times> world" where
  "decode npz_format self w =
     (let source_dir = base_folder self @ [capitalize (split self)];
          target_dir = base_folder self @ [capitalize (split self) @ ''_npz'']
      in case iterdir source_dir w of
           (Inl e, w1) \<Rightarrow> (Inl e, w1)
         | (Inr class_dirs, w1) \<Rightarrow>
             (case decode_class_dirs npz_format target_dir class_dirs w1 of
                (Inl e, w2) \<Rightarrow> (Inl e, w2)
              | (Inr _, w2) \<Rightarrow> (Inr (), w2\<lparr>stdout := stdout w2 @ [''Decoded all the files. '']\<rparr>)))"

text \<open>\<open>__getitem__\<close> and \<open>__len__\<close>: the body is \<open>pass\<close>, so the call returns \<open>None\<close>.\<close>

datatype py_value = PyNone | PyInt int | PyEvents event_data

definition getitem :: "nmnist \<Rightarrow> py_value \<Rightarrow> error + py_value" where
  "getitem self index = Inr PyNone"

definition len :: "nmnist \<Rightarrow> error + py_value" where
  "len self = Inr PyNone"

subsection \<open>The reference encoder of the round-trip property\<close>

text \<open>
  The repository has no encoder. This one follows the words of the round-trip property:
  byte0 = x, byte1 = y, byte2 = (p << 7) | (ts >> 16), byte3 = (ts >> 8) & 0xFF,
  byte4 = ts & 0xFF, one group of five bytes for each event.
\<close>

definition encode_event :: "uint32 \<Rightarrow> uint32 \<Rightarrow> uint32 \<Rightarrow> uint32 \<Rightarrow> uint8 list" where
  "encode_event x y p ts =
     [ucast x, ucast y, ucast (push_bit 7 p OR drop_bit 16 ts),
      ucast (drop_bit 8 ts AND 255), ucast (ts AND 255)]"

definition encode_events :: "event_data \<Rightarrow> uint8 list" where
  "encode_events ev =
     concat (map (\<lambda>(x, y, p, ts). encode_event x y p ts)
       (zip (ev_x ev) (zip (ev_y ev) (zip (ev_p ev) (ev_ts ev)))))"

subsection \<open>Two small worlds\<close>

text \<open>
  One source file \<open>in/a.bin\<close> holding one event and an output directory \<open>out\<close>; in the
  second world the archive \<open>out/a.npz\<close> cannot be written.
\<close>

definition world_ok :: world where
  "world_ok =
     \<lparr>nodes = [([''in''], Dir), ([''out''], Dir), ([''in'', ''a.bin''], File [10, 20, 0x81, 2, 3])],
      unwritable = [], accesses = [], stdout = []\<rparr>"

definition world_readonly :: world where
  "world_readonly =
     \<lparr>nodes = [([''in''], Dir), ([''out''], Dir), ([''in'', ''a.bin''], File [10, 20, 0x81, 2, 3])],
      unwritable = [[''out'', ''a.npz'']], accesses = [], stdout = []\<rparr>"

section \<open>Properties\<close>

subsection \<open>Bits of the packed bytes\<close>

lemma and_128_of_bool: "drop_bit 7 ((v :: uint32) AND 128) = of_bool (bit v 7)"
proof -
  have "drop_bit 7 (v AND 128) = drop_bit 7 v AND 1" by simp
  also have "\<dots> = drop_bit 7 v mod 2" by (rule and_one_eq)
  also have "\<dots> = of_bool (odd (drop_bit 7 v))" by (rule mod_2_eq_odd)
  also have "\<dots> = of_bool (bit v 7)" by (simp only: bit_iff_odd_drop_bit)
  finally show ?thesis .
qed

lemma and_127_take_bit: "(v :: uint32) AND 127 = take_bit 7 v"
proof -
  have "(127 :: uint32) = mask 7" by (simp add: mask_eq_exp_minus_1)
  then show ?thesis by (simp only: take_bit_eq_mask)
qed

lemma and_255_take_bit: "(v :: uint32) AND 255 = take_bit 8 v"
proof -
  have "(255 :: uint32) = mask 8" by (simp add: mask_eq_exp_minus_1)
  then show ?thesis by (simp only: take_bit_eq_mask)
qed

lemma bit_uint8_less: "bit (b :: uint8) n \<Longrightarrow> n < 8"
  using bit_imp_le_length [of b n] by simp

lemma unat_widen: "unat (ucast (b :: uint8) :: uint32) = unat b"
  by (simp add: unsigned_ucast_eq take_bit_nat_eq_self_iff
        less_trans [OF unsigned_less])

lemma widen_less_256: "(ucast (b :: uint8) :: uint32) < 256"
  by (simp add: word_less_nat_alt unat_widen) (use unsigned_less [of b, where 'a = nat] in simp)

lemma polarity_of_byte:
  "drop_bit 7 (ucast (b2 :: uint8) AND 128 :: uint32) = (if bit b2 7 then 1 else 0)"
  unfolding and_128_of_bool by (simp add: bit_simps)

lemma timestamp_less:
  "((push_bit 16 (ucast (b2 :: uint8) AND 127) OR push_bit 8 (ucast (b3 :: uint8)))
      OR ucast (b4 :: uint8) :: uint32) < 2 ^ 23"
proof -
  let ?t = "(push_bit 16 (take_bit 7 (ucast b2)) OR push_bit 8 (ucast b3)) OR ucast b4 :: uint32"
  have "take_bit 23 ?t = ?t"
    by (rule bit_eqI) (auto simp add: bit_simps dest: bit_uint8_less)
  then have "?t AND mask 23 = ?t" by (simp only: take_bit_eq_mask)
  then show ?thesis
    unfolding and_127_take_bit by (simp add: mask_eq_iff_w2p word_size)
qed

lemma timestamp_top_bits:
  "drop_bit 16 ((push_bit 16 (ucast (b2 :: uint8) AND 127) OR push_bit 8 (ucast (b3 :: uint8)))
      OR ucast (b4 :: uint8) :: uint32) = ucast b2 AND 127"
  unfolding and_127_take_bit
  by (rule bit_eqI) (auto simp add: bit_simps dest: bit_uint8_less)

lemma repack_byte2:
  "ucast (push_bit 7 (drop_bit 7 (ucast (b2 :: uint8) AND 128 :: uint32)) OR
     drop_bit 16 ((push_bit 16 (ucast b2 AND 127) OR push_bit 8 (ucast (b3 :: uint8)))
        OR ucast (b4 :: uint8) :: uint32)) = b2"
  unfolding and_127_take_bit and_128_of_bool
  apply (rule bit_eqI)
  apply (auto simp add: bit_simps dest: bit_uint8_less)
  subgoal for n by (cases "n = 7") auto
  subgoal for n by (cases "n = 7") auto
  done

lemma repack_byte3:
  "ucast (drop_bit 8 ((push_bit 16 (ucast (b2 :: uint8) AND 127) OR push_bit 8 (ucast b3))
      OR ucast (b4 :: uint8) :: uint32) AND 255) = (b3 :: uint8)"
  unfolding and_127_take_bit and_255_take_bit
  by (rule bit_eqI) (auto simp add: bit_simps dest: bit_uint8_less)

lemma repack_byte4:
  "ucast (((push_bit 16 (ucast (b2 :: uint8) AND 127) OR push_bit 8 (ucast (b3 :: uint8)))
      OR ucast b4 :: uint32) AND 255) = (b4 :: uint8)"
  unfolding and_127_take_bit and_255_take_bit
  by (rule bit_eqI) (auto simp add: bit_simps dest: bit_uint8_less)

lemma repack_byte01: "ucast (ucast (b :: uint8) :: uint32) = b"
  by (rule bit_eqI) (auto simp add: bit_simps dest: bit_uint8_less)

subsection \<open>Slices and broadcasting\<close>

lemma slice_from_5_eq:
  assumes "start < 5" and "length a = 5 * n"
  shows "slice_from start 5 a = map (\<lambda>i. a ! (5 * i + start)) [0..<n]"
proof -
  from assms have "(length a - start + (5 - 1)) div 5 = n" by arith
  then show ?thesis by (simp add: slice_from_def add.commute mult.commute)
qed

lemma length_slice_from_5:
  "length (slice_from start 5 a) = (length a - start + 4) div 5"
  by (simp add: slice_from_def)

lemma set_slice_from_5: "set (slice_from start 5 a) \<subseteq> set a"
proof
  fix v assume v_in: "v \<in> set (slice_from start 5 a)"
  define m where "m = (length a - start + (5 - 1)) div 5"
  from v_in have "v \<in> (\<lambda>i. a ! (start + i * 5)) ` {0 ..< m}"
    unfolding slice_from_def m_def by (simp only: set_map set_upt)
  then obtain i where i: "i < m" and v: "v = a ! (start + i * 5)"
    by auto
  from i have "start + i * 5 < length a" unfolding m_def by arith
  with v show "v \<in> set a" by simp
qed

lemma np_binop_same_length:
  "length a = length b \<Longrightarrow> np_binop f a b = Inr (map2 f a b)"
  by (simp add: np_binop_def)

lemma np_binop_elements:
  assumes "np_binop f a b = Inr c" and "v \<in> set c"
  shows "\<exists>x \<in> set a. \<exists>y \<in> set b. v = f x y"
proof -
  consider (same) "length a = length b"
    | (left) "length a \<noteq> length b" "length a = 1"
    | (right) "length a \<noteq> length b" "length a \<noteq> 1" "length b = 1"
    | (bad) "length a \<noteq> length b" "length a \<noteq> 1" "length b \<noteq> 1"
    by blast
  then show ?thesis
  proof cases
    case same
    with assms have "v \<in> set (map2 f a b)" by (simp add: np_binop_def)
    then obtain x y where "(x, y) \<in> set (zip a b)" "v = f x y" by auto
    then show ?thesis by (auto dest: set_zip_leftD set_zip_rightD)
  next
    case left
    then have "hd a \<in> set a" by (cases a) auto
    moreover from left assms have "v \<in> set (map (f (hd a)) b)" by (simp add: np_binop_def)
    ultimately show ?thesis by auto
  next
    case right
    then have "hd b \<in> set b" by (cases b) auto
    moreover from right assms have "v \<in> set (map (\<lambda>v. f v (hd b)) a)" by (simp add: np_binop_def)
    ultimately show ?thesis by auto
  next
    case bad
    with assms show ?thesis by (simp add: np_binop_def)
  qed
qed

lemma map2_map_upt:
  "map2 f (map g [0..<n]) (map h [0..<n]) = map (\<lambda>i. f (g i) (h i)) [0..<n]"
  by (induction n) simp_all

subsection \<open>The decoder on whole groups\<close>

lemma decode_events_multiple_of_5:
  assumes "length bytes = 5 * n"
  shows "decode_events bytes = Inr
     \<lparr>ev_x = map (\<lambda>i. ucast (bytes ! (5 * i))) [0..<n],
      ev_y = map (\<lambda>i. ucast (bytes ! (5 * i + 1))) [0..<n],
      ev_p = map (\<lambda>i. drop_bit 7 (ucast (bytes ! (5 * i + 2)) AND 128)) [0..<n],
      ev_ts = map (\<lambda>i. (push_bit 16 (ucast (bytes ! (5 * i + 2)) AND 127)
                     OR push_bit 8 (ucast (bytes ! (5 * i + 3))))
                     OR ucast (bytes ! (5 * i + 4))) [0..<n]\<rparr>"
proof -
  let ?data = "map ucast bytes :: uint32 list"
  have len: "length ?data = 5 * n" using assms by simp
  have sl: "slice_from k 5 ?data = map (\<lambda>i. ucast (bytes ! (5 * i + k))) [0..<n]" if "k < 5" for k
    using slice_from_5_eq [OF that len] assms that by simp
  show ?thesis
    unfolding decode_events_def Let_def
    by (simp add: sl np_binop_same_length map2_map_upt o_def)
qed

lemma decode_events_group:
  "decode_events [b0, b1, b2, b3, b4] = Inr
     \<lparr>ev_x = [ucast b0], ev_y = [ucast b1],
      ev_p = [drop_bit 7 (ucast b2 AND 128)],
      ev_ts = [(push_bit 16 (ucast b2 AND 127) OR push_bit 8 (ucast b3)) OR ucast b4]\<rparr>"
  using decode_events_multiple_of_5 [of "[b0, b1, b2, b3, b4]" 1] by simp

lemma list5:
  "length xs = 5 \<Longrightarrow> xs = [xs ! 0, xs ! 1, xs ! 2, xs ! 3, xs ! 4]"
  by (auto simp: length_Suc_conv eval_nat_numeral)

lemma concat_groups:
  "length bs = 5 * n \<Longrightarrow>
   concat (map (\<lambda>i. [bs ! (5 * i), bs ! (5 * i + 1), bs ! (5 * i + 2),
                      bs ! (5 * i + 3), bs ! (5 * i + 4)]) [0..<n]) = bs"
proof (induction n arbitrary: bs)
  case 0
  then show ?case by simp
next
  case (Suc n)
  let ?h = "take (5 * n) bs" and ?t = "drop (5 * n) bs"
  have lh: "length ?h = 5 * n" using Suc.prems by simp
  have lt: "length ?t = 5" using Suc.prems by simp
  have t: "?t = [bs ! (5 * n), bs ! (5 * n + 1), bs ! (5 * n + 2),
                 bs ! (5 * n + 3), bs ! (5 * n + 4)]"
    using list5 [OF lt] Suc.prems by simp
  have "concat (map (\<lambda>i. [bs ! (5 * i), bs ! (5 * i + 1), bs ! (5 * i + 2),
                           bs ! (5 * i + 3), bs ! (5 * i + 4)]) [0..<n])
      = concat (map (\<lambda>i. [?h ! (5 * i), ?h ! (5 * i + 1), ?h ! (5 * i + 2),
                           ?h ! (5 * i + 3), ?h ! (5 * i + 4)]) [0..<n])"
    by (rule arg_cong [where f = concat]) (rule map_cong, simp, simp)
  also have "\<dots> = ?h" by (rule Suc.IH [OF lh])
  finally have "concat (map (\<lambda>i. [bs ! (5 * i), bs ! (5 * i + 1), bs ! (5 * i + 2),
                           bs ! (5 * i + 3), bs ! (5 * i + 4)]) [0..<Suc n]) = ?h @ ?t"
    using t by simp
  then show ?case by simp
qed

lemma zip4_map_upt:
  "zip (map f [0..<n]) (zip (map g [0..<n]) (zip (map h [0..<n]) (map k [0..<n])))
     = map (\<lambda>i. (f i, g i, h i, k i)) [0..<n]"
  by (induction n) simp_all

lemma encode_event_group:
  "encode_event (ucast b0) (ucast b1) (drop_bit 7 (ucast b2 AND 128))
     ((push_bit 16 (ucast b2 AND 127) OR push_bit 8 (ucast b3)) OR ucast b4)
   = [b0, b1, b2, b3, b4]"
  unfolding encode_event_def
  by (simp only: repack_byte01 repack_byte2 repack_byte3 repack_byte4)

lemma encode_decode_events:
  assumes "length bytes = 5 * n" and "decode_events bytes = Inr ev"
  shows "encode_events ev = bytes"
proof -
  from assms have ev: "ev =
     \<lparr>ev_x = map (\<lambda>i. ucast (bytes ! (5 * i))) [0..<n],
      ev_y = map (\<lambda>i. ucast (bytes ! (5 * i + 1))) [0..<n],
      ev_p = map (\<lambda>i. drop_bit 7 (ucast (bytes ! (5 * i + 2)) AND 128)) [0..<n],
      ev_ts = map (\<lambda>i. (push_bit 16 (ucast (bytes ! (5 * i + 2)) AND 127)
                     OR push_bit 8 (ucast (bytes ! (5 * i + 3))))
                     OR ucast (bytes ! (5 * i + 4))) [0..<n]\<rparr>"
    by (simp only: decode_events_multiple_of_5 sum.inject)
  have "encode_events ev =
      concat (map (\<lambda>i. [bytes ! (5 * i), bytes ! (5 * i + 1), bytes ! (5 * i + 2),
                         bytes ! (5 * i + 3), bytes ! (5 * i + 4)]) [0..<n])"
    unfolding encode_events_def ev
    by (simp only: event_data.simps zip4_map_upt map_map o_def prod.case encode_event_group)
  then show ?thesis by (simp only: concat_groups [OF assms(1)])
qed

lemma nth_map_upt_0: "i < n \<Longrightarrow> map f [0..<n] ! i = f i"
  by simp

subsection \<open>Streams of any length\<close>

lemma length_group:
  "length bs = 5 * n \<Longrightarrow> i < n \<Longrightarrow> length (take 5 (drop (5 * i) bs)) = 5"
  by simp

lemma length_slice_from_5_rem:
  assumes "length a = 5 * n + r" and "r < 5" and "k < 5"
  shows "length (slice_from k 5 a) = (if k < r then n + 1 else n)"
proof -
  from assms have "(length a - k + 4) div 5 = (if k < r then n + 1 else n)" by (auto; arith)
  then show ?thesis by (simp only: length_slice_from_5)
qed

lemma decode_events_cases:
  assumes "decode_events bytes = Inr ev"
  obtains hi where
    "np_binop (OR) (map (\<lambda>v. push_bit 16 (v AND 127)) (slice_from 2 5 (map ucast bytes)))
        (map (push_bit 8) (slice_from 3 5 (map ucast bytes))) = Inr hi"
    "np_binop (OR) hi (slice_from 4 5 (map ucast bytes)) = Inr (ev_ts ev)"
    "ev_x ev = slice_from 0 5 (map ucast bytes)"
    "ev_y ev = slice_from 1 5 (map ucast bytes)"
    "ev_p ev = map (\<lambda>v. drop_bit 7 (v AND 128)) (slice_from 2 5 (map ucast bytes))"
proof -
  let ?A = "map (\<lambda>v. push_bit 16 (v AND 127)) (slice_from 2 5 (map ucast bytes :: uint32 list))"
  let ?B = "map (push_bit 8) (slice_from 3 5 (map ucast bytes :: uint32 list))"
  let ?C = "slice_from 4 5 (map ucast bytes :: uint32 list)"
  have dd: "decode_events bytes =
     (case np_binop (OR) ?A ?B of
           Inl e \<Rightarrow> Inl e
         | Inr hi \<Rightarrow>
             (case np_binop (OR) hi ?C of
                Inl e \<Rightarrow> Inl e
              | Inr ts \<Rightarrow> Inr \<lparr>ev_x = slice_from 0 5 (map ucast bytes),
                     ev_y = slice_from 1 5 (map ucast bytes),
                     ev_p = map (\<lambda>v. drop_bit 7 (v AND 128)) (slice_from 2 5 (map ucast bytes)),
                     ev_ts = ts\<rparr>))"
    unfolding decode_events_def Let_def by (rule refl)
  show thesis
  proof (cases "np_binop (OR) ?A ?B")
    case (Inl e)
    with dd assms show thesis by (simp only: sum.case sum.distinct)
  next
    case hi: (Inr hi)
    show thesis
    proof (cases "np_binop (OR) hi ?C")
      case (Inl e)
      with dd hi assms show thesis by (simp only: sum.case sum.distinct)
    next
      case (Inr ts)
      with dd hi assms have "ev = \<lparr>ev_x = slice_from 0 5 (map ucast bytes),
                     ev_y = slice_from 1 5 (map ucast bytes),
                     ev_p = map (\<lambda>v. drop_bit 7 (v AND 128)) (slice_from 2 5 (map ucast bytes)),
                     ev_ts = ts\<rparr>"
        by (simp only: sum.case sum.inject)
      then have "ev_ts ev = ts" "ev_x ev = slice_from 0 5 (map ucast bytes)"
        "ev_y ev = slice_from 1 5 (map ucast bytes)"
        "ev_p ev = map (\<lambda>v. drop_bit 7 (v AND 128)) (slice_from 2 5 (map ucast bytes))"
        by (simp_all only: event_data.select_convs)
      with hi Inr that show thesis by blast
    qed
  qed
qed

lemma slice_widened:
  assumes "v \<in> set (slice_from k 5 (map ucast (bytes :: uint8 list) :: uint32 list))"
  obtains b :: uint8 where "v = ucast b"
proof -
  from assms set_slice_from_5 [of k "map ucast bytes"]
  have "v \<in> set (map ucast bytes :: uint32 list)" by blast
  then obtain b :: uint8 where "v = ucast b" by (auto simp only: set_map)
  then show thesis by (rule that)
qed

lemma decode_events_same_tail_lengths:
  assumes "length (slice_from 2 5 (map ucast bytes :: uint32 list)) = m"
    and "length (slice_from 3 5 (map ucast bytes :: uint32 list)) = m"
    and "length (slice_from 4 5 (map ucast bytes :: uint32 list)) = m"
  shows "\<exists>ev. decode_events bytes = Inr ev \<and>
     ev_x ev = slice_from 0 5 (map ucast bytes) \<and>
     ev_y ev = slice_from 1 5 (map ucast bytes) \<and>
     length (ev_p ev) = m \<and> length (ev_ts ev) = m"
  unfolding decode_events_def Let_def
  using assms by (simp add: np_binop_same_length)

lemma np_binop_rejects:
  "length a \<noteq> length b \<Longrightarrow> length a \<noteq> 1 \<Longrightarrow> length b \<noteq> 1 \<Longrightarrow> np_binop f a b = Inl ValueError"
  by (simp add: np_binop_def)

lemma decode_events_rejects_rem_3:
  assumes "length bytes = 5 * n + 3" and "2 \<le> n"
  shows "decode_events bytes = Inl ValueError"
proof -
  from assms(1) have len: "length (map ucast bytes :: uint32 list) = 5 * n + 3" by simp
  have l: "length (slice_from k 5 (map ucast bytes :: uint32 list)) = (if k < 3 then n + 1 else n)"
    if "k < 5" for k
    by (rule length_slice_from_5_rem [OF len _ that]) simp
  have "np_binop (OR) (map (\<lambda>v. push_bit 16 (v AND 127)) (slice_from 2 5 (map ucast bytes :: uint32 list)))
          (map (push_bit 8) (slice_from 3 5 (map ucast bytes))) = Inl ValueError"
    using l [of 2] l [of 3] assms(2) by (intro np_binop_rejects) simp_all
  then show ?thesis
    unfolding decode_events_def Let_def by (simp only: sum.case)
qed

lemma decode_events_rejects_rem_4:
  assumes "length bytes = 5 * n + 4" and "2 \<le> n"
  shows "decode_events bytes = Inl ValueError"
proof -
  from assms(1) have len: "length (map ucast bytes :: uint32 list) = 5 * n + 4" by simp
  have l: "length (slice_from k 5 (map ucast bytes :: uint32 list)) = (if k < 4 then n + 1 else n)"
    if "k < 5" for k
    by (rule length_slice_from_5_rem [OF len _ that]) simp
  let ?A = "map (\<lambda>v. push_bit 16 (v AND 127)) (slice_from 2 5 (map ucast bytes :: uint32 list))"
  let ?B = "map (push_bit 8) (slice_from 3 5 (map ucast bytes :: uint32 list))"
  have lA: "length ?A = n + 1" and lB: "length ?B = n + 1"
    using l [of 2] l [of 3] by simp_all
  have hi: "np_binop (OR) ?A ?B = Inr (map2 (OR) ?A ?B)"
    by (rule np_binop_same_length) (simp only: lA lB)
  have "length (map2 (OR) ?A ?B) = n + 1"
    using lA lB by simp
  then have "np_binop (OR) (map2 (OR) ?A ?B) (slice_from 4 5 (map ucast bytes :: uint32 list))
      = Inl ValueError"
    using l [of 4] assms(2) by (intro np_binop_rejects) simp_all
  with hi show ?thesis
    unfolding decode_events_def Let_def by (simp only: sum.case)
qed

lemma decode_events_broadcast:
  assumes "length bytes = 5 * n + 3 \<or> length bytes = 5 * n + 4" and "n < 2"
  shows "\<exists>ev. decode_events bytes = Inr ev \<and>
     length (ev_x ev) = n + 1 \<and> length (ev_y ev) = n + 1 \<and>
     length (ev_p ev) = n + 1 \<and> length (ev_ts ev) = 2 * n"
proof -
  let ?data = "map ucast bytes :: uint32 list"
  from assms(1) obtain r where r: "r = 3 \<or> r = 4" and len: "length ?data = 5 * n + r"
    by auto
  from r have r5: "r < 5" by auto
  have l: "length (slice_from k 5 ?data) = (if k < r then n + 1 else n)" if "k < 5" for k
    by (rule length_slice_from_5_rem [OF len r5 that])
  from assms(2) have "n = 0 \<or> n = 1" by auto
  with r l [of 0] l [of 1] l [of 2] l [of 3] l [of 4] show ?thesis
    unfolding decode_events_def Let_def np_binop_def
    by (elim disjE) simp_all
qed

subsection \<open>The loader\<close>



lemma decode_binary_to_npz_failure:
  assumes "decode_binary_to_npz npz_format src dst w = (Inl e, w1)"
  shows "nodes w1 = nodes w"
    and "\<exists>new. accesses w1 = accesses w @ new \<and> (\<forall>p. Unlink p \<notin> set new)"
  using assms
  by (auto simp add: decode_binary_to_npz_def open_rb_def savez_def touch_def Let_def
        split: option.splits node.splits sum.splits if_splits)

section \<open>The claims\<close>

text \<open>
  C1. On a byte stream whose length is a multiple of 5, the decoder turns the i-th group of
  five bytes into the i-th event: x is byte 0, y is byte 1, p is bit 7 of byte 2, and ts is
  \<open>(byte2 & 0x7F) << 16 | byte3 << 8 | byte4\<close>. The group 10, 20, 0x81, 2, 3 decodes to
  x = 10, y = 20, p = 1, ts = 66051, and a group whose byte 2 is 0x7F decodes to p = 0
  with 0x7F in the bits of ts above bit 15.
\<close>

theorem decode_events_layout:
  "(length bytes = 5 * n \<longrightarrow>
     (\<exists>ev. decode_events bytes = Inr ev \<and>
        (\<forall>i<n. ev_x ev ! i = ucast (bytes ! (5 * i)) \<and>
               ev_y ev ! i = ucast (bytes ! (5 * i + 1)) \<and>
               ev_p ev ! i = (if bit (bytes ! (5 * i + 2)) 7 then 1 else 0) \<and>
               ev_ts ev ! i = (push_bit 16 (ucast (bytes ! (5 * i + 2)) AND 0x7F)
                                 OR push_bit 8 (ucast (bytes ! (5 * i + 3))))
                                 OR ucast (bytes ! (5 * i + 4))))) \<and>
     decode_events [10, 20, 0x81, 0x02, 0x03]
       = Inr \<lparr>ev_x = [10], ev_y = [20], ev_p = [1], ev_ts = [66051]\<rparr> \<and>
     (\<exists>ts. decode_events [b0, b1, 0x7F, b3, b4]
              = Inr \<lparr>ev_x = [ucast b0], ev_y = [ucast b1], ev_p = [0], ev_ts = [ts]\<rparr> \<and>
           drop_bit 16 ts = 0x7F)"
proof (intro conjI impI)
  assume len: "length bytes = 5 * n"
  let ?E = "\<lparr>ev_x = map (\<lambda>i. ucast (bytes ! (5 * i))) [0..<n],
      ev_y = map (\<lambda>i. ucast (bytes ! (5 * i + 1))) [0..<n],
      ev_p = map (\<lambda>i. drop_bit 7 (ucast (bytes ! (5 * i + 2)) AND 128)) [0..<n],
      ev_ts = map (\<lambda>i. (push_bit 16 (ucast (bytes ! (5 * i + 2)) AND 127)
                     OR push_bit 8 (ucast (bytes ! (5 * i + 3))))
                     OR ucast (bytes ! (5 * i + 4))) [0..<n]\<rparr>"
  have dec: "decode_events bytes = Inr ?E"
    by (rule decode_events_multiple_of_5 [OF len])
  have "ev_x ?E ! i = ucast (bytes ! (5 * i)) \<and>
        ev_y ?E ! i = ucast (bytes ! (5 * i + 1)) \<and>
        ev_p ?E ! i = (if bit (bytes ! (5 * i + 2)) 7 then 1 else 0) \<and>
        ev_ts ?E ! i = (push_bit 16 (ucast (bytes ! (5 * i + 2)) AND 0x7F)
                          OR push_bit 8 (ucast (bytes ! (5 * i + 3))))
                          OR ucast (bytes ! (5 * i + 4))" if "i < n" for i
    by (simp only: event_data.select_convs nth_map_upt_0 [OF that] polarity_of_byte simp_thms)
  with dec show "\<exists>ev. decode_events bytes = Inr ev \<and>
        (\<forall>i<n. ev_x ev ! i = ucast (bytes ! (5 * i)) \<and>
               ev_y ev ! i = ucast (bytes ! (5 * i + 1)) \<and>
               ev_p ev ! i = (if bit (bytes ! (5 * i + 2)) 7 then 1 else 0) \<and>
               ev_ts ev ! i = (push_bit 16 (ucast (bytes ! (5 * i + 2)) AND 0x7F)
                                 OR push_bit 8 (ucast (bytes ! (5 * i + 3))))
                                 OR ucast (bytes ! (5 * i + 4)))"
    by blast
next
  show "decode_events [10, 20, 0x81, 0x02, 0x03]
       = Inr \<lparr>ev_x = [10], ev_y = [20], ev_p = [1], ev_ts = [66051]\<rparr>"
    unfolding decode_events_group by simp
next
  have "drop_bit 16 ((push_bit 16 (ucast (0x7F :: uint8) AND 127) OR push_bit 8 (ucast b3))
      OR ucast b4 :: uint32) = 0x7F"
    unfolding timestamp_top_bits by simp
  moreover have "drop_bit 7 (ucast (0x7F :: uint8) AND 128 :: uint32) = 0" by simp
  ultimately show "\<exists>ts. decode_events [b0, b1, 0x7F, b3, b4]
              = Inr \<lparr>ev_x = [ucast b0], ev_y = [ucast b1], ev_p = [0], ev_ts = [ts]\<rparr> \<and>
           drop_bit 16 ts = 0x7F"
    unfolding decode_events_group by (intro exI conjI) (simp only: , assumption)
qed

theorem decode_events_layout_witness:
  "length [1, 2, 0xFF, 4, 5, 6, 7, 8, 9, 10 :: uint8] = 5 * 2 \<and>
   decode_events [1, 2, 0xFF, 4, 5, 6, 7, 8, 9, 10]
     = Inr \<lparr>ev_x = [1, 6], ev_y = [2, 7], ev_p = [1, 0], ev_ts = [0x7F0405, 0x08090A]\<rparr>"
proof -
  have h: "length [1, 2, 0xFF, 4, 5, 6, 7, 8, 9, 10 :: uint8] = 5 * 2" by simp
  have e: "decode_events [1, 2, 0xFF, 4, 5, 6, 7, 8, 9, 10]
     = Inr \<lparr>ev_x = [1, 6], ev_y = [2, 7], ev_p = [1, 0], ev_ts = [0x7F0405, 0x08090A]\<rparr>"
    by code_simp
  show ?thesis
    using decode_events_layout [of "[1, 2, 0xFF, 4, 5, 6, 7, 8, 9, 10]" 2]
    by (simp only: h e simp_thms)
qed

text \<open>
  C2. On a byte stream of length 5 n the decoder returns four arrays of length n each, and
  the i-th value of every array comes from the i-th group of five bytes: decoding that
  group alone gives exactly those four values.
\<close>

theorem decode_events_aligned:
  "length bytes = 5 * n \<Longrightarrow>
     \<exists>ev. decode_events bytes = Inr ev \<and>
       length (ev_x ev) = n \<and> length (ev_y ev) = n \<and>
       length (ev_p ev) = n \<and> length (ev_ts ev) = n \<and>
       (\<forall>i<n. decode_events (take 5 (drop (5 * i) bytes))
                = Inr \<lparr>ev_x = [ev_x ev ! i], ev_y = [ev_y ev ! i],
                       ev_p = [ev_p ev ! i], ev_ts = [ev_ts ev ! i]\<rparr>)"
proof -
  assume len: "length bytes = 5 * n"
  let ?E = "\<lparr>ev_x = map (\<lambda>i. ucast (bytes ! (5 * i))) [0..<n],
      ev_y = map (\<lambda>i. ucast (bytes ! (5 * i + 1))) [0..<n],
      ev_p = map (\<lambda>i. drop_bit 7 (ucast (bytes ! (5 * i + 2)) AND 128)) [0..<n],
      ev_ts = map (\<lambda>i. (push_bit 16 (ucast (bytes ! (5 * i + 2)) AND 127)
                     OR push_bit 8 (ucast (bytes ! (5 * i + 3))))
                     OR ucast (bytes ! (5 * i + 4))) [0..<n]\<rparr> :: event_data"
  have dec: "decode_events bytes = Inr ?E"
    by (rule decode_events_multiple_of_5 [OF len])
  have lens: "length (ev_x ?E) = n \<and> length (ev_y ?E) = n \<and>
       length (ev_p ?E) = n \<and> length (ev_ts ?E) = n"
    by (simp only: event_data.select_convs length_map length_upt) simp
  have grp: "decode_events (take 5 (drop (5 * i) bytes))
                = Inr \<lparr>ev_x = [ev_x ?E ! i], ev_y = [ev_y ?E ! i],
                       ev_p = [ev_p ?E ! i], ev_ts = [ev_ts ?E ! i]\<rparr>" if "i < n" for i
  proof -
    let ?g = "take 5 (drop (5 * i) bytes)"
    have g5: "length ?g = 5" by (rule length_group [OF len that])
    have g: "?g = [bytes ! (5 * i), bytes ! (5 * i + 1), bytes ! (5 * i + 2),
                   bytes ! (5 * i + 3), bytes ! (5 * i + 4)]"
      using list5 [OF g5] len that by simp
    show ?thesis
      by (simp only: g decode_events_group event_data.select_convs nth_map_upt_0 [OF that])
  qed
  from dec lens grp show ?thesis by blast
qed

theorem decode_events_aligned_witness:
  "length [1, 2, 0xFF, 4, 5, 6, 7, 8, 9, 10 :: uint8] = 5 * 2 \<and>
   decode_events [1, 2, 0xFF, 4, 5, 6, 7, 8, 9, 10]
     = Inr \<lparr>ev_x = [1, 6], ev_y = [2, 7], ev_p = [1, 0], ev_ts = [0x7F0405, 0x08090A]\<rparr> \<and>
   decode_events [6, 7, 8, 9, 10]
     = Inr \<lparr>ev_x = [6], ev_y = [7], ev_p = [0], ev_ts = [0x08090A]\<rparr>"
proof -
  let ?bytes = "[1, 2, 0xFF, 4, 5, 6, 7, 8, 9, 10] :: uint8 list"
  let ?E = "\<lparr>ev_x = [1, 6], ev_y = [2, 7], ev_p = [1, 0], ev_ts = [0x7F0405, 0x08090A]\<rparr>"
  have h: "length ?bytes = 5 * 2" by simp
  have e: "decode_events ?bytes = Inr ?E" by code_simp
  from decode_events_aligned [OF h] obtain ev
    where ev: "decode_events ?bytes = Inr ev"
      and g: "\<forall>i<2. decode_events (take 5 (drop (5 * i) ?bytes))
                = Inr \<lparr>ev_x = [ev_x ev ! i], ev_y = [ev_y ev ! i],
                       ev_p = [ev_p ev ! i], ev_ts = [ev_ts ev ! i]\<rparr>"
    by blast
  from ev e have "ev = ?E" by simp
  with g [rule_format, of 1]
  have "decode_events [6, 7, 8, 9, 10]
     = Inr \<lparr>ev_x = [6], ev_y = [7], ev_p = [0], ev_ts = [0x08090A]\<rparr>"
    by simp
  with h e show ?thesis by (simp only: simp_thms)
qed

text \<open>
  C3. Round trip. On a byte stream whose length is a multiple of 5, encoding the decoded
  arrays with the reference encoder gives the stream back, byte for byte; so two such
  streams with the same decoding are the same stream.
\<close>

theorem decode_encode_roundtrip:
  "length bytes = 5 * n \<Longrightarrow>
     (\<exists>ev. decode_events bytes = Inr ev \<and> encode_events ev = bytes) \<and>
     (\<forall>other. 5 dvd length other \<and> decode_events other = decode_events bytes
        \<longrightarrow> other = bytes)"
proof -
  assume len: "length bytes = 5 * n"
  from decode_events_multiple_of_5 [OF len] obtain ev where ev: "decode_events bytes = Inr ev"
    by blast
  have enc: "encode_events ev = bytes" by (rule encode_decode_events [OF len ev])
  have "other = bytes" if "5 dvd length other" and same: "decode_events other = decode_events bytes"
    for other
  proof -
    from that(1) obtain m where m: "length other = 5 * m" by (auto elim: dvdE)
    from same ev have "decode_events other = Inr ev" by simp
    from encode_decode_events [OF m this] enc show ?thesis by simp
  qed
  with ev enc show ?thesis by blast
qed

theorem decode_encode_roundtrip_witness:
  "length [10, 20, 0x81, 2, 3 :: uint8] = 5 * 1 \<and>
   encode_events \<lparr>ev_x = [10], ev_y = [20], ev_p = [1], ev_ts = [66051]\<rparr> = [10, 20, 0x81, 2, 3]"
proof -
  have h: "length [10, 20, 0x81, 2, 3 :: uint8] = 5 * 1" by simp
  have e: "decode_events [10, 20, 0x81, 2, 3]
      = Inr \<lparr>ev_x = [10], ev_y = [20], ev_p = [1], ev_ts = [66051]\<rparr>"
    by code_simp
  from decode_encode_roundtrip [OF h] e h show ?thesis by auto
qed

text \<open>
  C4. The step of \<open>decode\<close> for one file. When \<open>decode_binary_to_npz\<close> raises (the file
  cannot be read, the arrays cannot be combined, or the archive cannot be written), the
  step raises the same error, the tree is as before, and no \<open>unlink\<close> of the source file
  was made. The \<open>unlink\<close> is made only when \<open>decode_binary_to_npz\<close> has returned, as the
  call that follows it.
\<close>

theorem decode_file_unlink_guarded:
  "(decode_binary_to_npz npz_format bin_file (target_file target_class_dir bin_file) w
        = (Inl e, w1) \<longrightarrow>
      decode_file npz_format target_class_dir bin_file w = (Inl e, w1) \<and>
      nodes w1 = nodes w \<and>
      (\<exists>new. accesses w1 = accesses w @ new \<and> Unlink bin_file \<notin> set new)) \<and>
   (decode_binary_to_npz npz_format bin_file (target_file target_class_dir bin_file) w
        = (Inr u, w1) \<longrightarrow>
      decode_file npz_format target_class_dir bin_file w = unlink bin_file w1 \<and>
      accesses (snd (unlink bin_file w1)) = accesses w1 @ [Unlink bin_file])"
proof (intro conjI impI)
  assume f: "decode_binary_to_npz npz_format bin_file (target_file target_class_dir bin_file) w
        = (Inl e, w1)"
  then show "decode_file npz_format target_class_dir bin_file w = (Inl e, w1)"
    by (simp add: decode_file_def)
  from decode_binary_to_npz_failure(1) [OF f] show "nodes w1 = nodes w" .
  from decode_binary_to_npz_failure(2) [OF f]
  show "\<exists>new. accesses w1 = accesses w @ new \<and> Unlink bin_file \<notin> set new" by blast
next
  assume "decode_binary_to_npz npz_format bin_file (target_file target_class_dir bin_file) w
        = (Inr u, w1)"
  then show "decode_file npz_format target_class_dir bin_file w = unlink bin_file w1"
    by (simp add: decode_file_def)
  show "accesses (snd (unlink bin_file w1)) = accesses w1 @ [Unlink bin_file]"
    by (simp add: unlink_def touch_def split: option.splits node.splits)
qed

theorem decode_file_unlink_guarded_witness:
  "decode_file (\<lambda>_. []) [''out''] [''in'', ''a.bin''] world_readonly
     = (Inl OSError,
        world_readonly\<lparr>accesses := [Open [''in'', ''a.bin''], Save [''out'', ''a.npz'']]\<rparr>) \<and>
   decode_file (\<lambda>_. []) [''out''] [''in'', ''a.bin''] world_ok
     = (Inr (),
        \<lparr>nodes = [([''in''], Dir), ([''out''], Dir), ([''out'', ''a.npz''], File [])],
         unwritable = [],
         accesses = [Open [''in'', ''a.bin''], Save [''out'', ''a.npz''], Unlink [''in'', ''a.bin'']],
         stdout = []\<rparr>)"
proof -
  let ?w1 = "world_readonly\<lparr>accesses := [Open [''in'', ''a.bin''], Save [''out'', ''a.npz'']]\<rparr>"
  let ?w2 = "\<lparr>nodes = [([''in''], Dir), ([''out''], Dir), ([''in'', ''a.bin''], File [10, 20, 0x81, 2, 3]),
                     ([''out'', ''a.npz''], File [])],
            unwritable = [],
            accesses = [Open [''in'', ''a.bin''], Save [''out'', ''a.npz'']],
            stdout = []\<rparr>"
  have f: "decode_binary_to_npz (\<lambda>_. []) [''in'', ''a.bin'']
             (target_file [''out''] [''in'', ''a.bin'']) world_readonly = (Inl OSError, ?w1)"
    unfolding world_readonly_def by code_simp
  have s: "decode_binary_to_npz (\<lambda>_. []) [''in'', ''a.bin'']
             (target_file [''out''] [''in'', ''a.bin'']) world_ok = (Inr (), ?w2)"
    unfolding world_ok_def by code_simp
  have u: "unlink [''in'', ''a.bin''] ?w2
     = (Inr (),
        \<lparr>nodes = [([''in''], Dir), ([''out''], Dir), ([''out'', ''a.npz''], File [])],
         unwritable = [],
         accesses = [Open [''in'', ''a.bin''], Save [''out'', ''a.npz''], Unlink [''in'', ''a.bin'']],
         stdout = []\<rparr>)"
    by code_simp
  from decode_file_unlink_guarded
         [where npz_format = "\<lambda>_. []" and bin_file = "[''in'', ''a.bin'']"
            and target_class_dir = "[''out'']" and w = world_readonly and e = OSError
            and ?w1.0 = ?w1] f
  have 1: "decode_file (\<lambda>_. []) [''out''] [''in'', ''a.bin''] world_readonly = (Inl OSError, ?w1)"
    by blast
  from decode_file_unlink_guarded
         [where npz_format = "\<lambda>_. []" and bin_file = "[''in'', ''a.bin'']"
            and target_class_dir = "[''out'']" and w = world_ok and u = "()"
            and ?w1.0 = ?w2] s
  have "decode_file (\<lambda>_. []) [''out''] [''in'', ''a.bin''] world_ok = unlink [''in'', ''a.bin''] ?w2"
    by blast
  with u 1 show ?thesis by (simp only: simp_thms)
qed

text \<open>
  C5. With a split other than \<open>train\<close> and \<open>test\<close> the constructor raises
  \<open>AssertionError\<close> and the world is untouched: no file system call is recorded and the
  download collaborator is not called, whatever the root and the download flag.
\<close>

theorem init_rejects_split:
  "split_arg \<notin> {''train'', ''test''} \<Longrightarrow>
     init download_and_extract_archive root_arg split_arg download_arg w = (Inl AssertionError, w)"
  by (simp add: init_def)

theorem init_rejects_split_witness:
  "''valid'' \<notin> {''train'', ''test''} \<and>
   init (\<lambda>args w. (Inr (), w)) [''data''] ''valid'' True world_ok = (Inl AssertionError, world_ok)"
proof -
  have h: "''valid'' \<notin> {''train'', ''test''}" by simp
  from init_rejects_split [OF h] h show ?thesis by blast
qed



text \<open>
  C7. Bytes 0 and 1 of every group reach x and y with their value unchanged, whatever
  the value (no check against the 34 by 34 sensor), and the decoder accepts every byte 2:
  it returns arrays for every stream of whole groups.
\<close>

theorem decode_events_passthrough:
  "length bytes = 5 * n \<Longrightarrow>
     \<exists>ev. decode_events bytes = Inr ev \<and>
       (\<forall>i<n. unat (ev_x ev ! i) = unat (bytes ! (5 * i)) \<and>
              unat (ev_y ev ! i) = unat (bytes ! (5 * i + 1)))"
proof -
  assume len: "length bytes = 5 * n"
  let ?E = "\<lparr>ev_x = map (\<lambda>i. ucast (bytes ! (5 * i))) [0..<n],
      ev_y = map (\<lambda>i. ucast (bytes ! (5 * i + 1))) [0..<n],
      ev_p = map (\<lambda>i. drop_bit 7 (ucast (bytes ! (5 * i + 2)) AND 128)) [0..<n],
      ev_ts = map (\<lambda>i. (push_bit 16 (ucast (bytes ! (5 * i + 2)) AND 127)
                     OR push_bit 8 (ucast (bytes ! (5 * i + 3))))
                     OR ucast (bytes ! (5 * i + 4))) [0..<n]\<rparr> :: event_data"
  have dec: "decode_events bytes = Inr ?E"
    by (rule decode_events_multiple_of_5 [OF len])
  have "unat (ev_x ?E ! i) = unat (bytes ! (5 * i)) \<and>
        unat (ev_y ?E ! i) = unat (bytes ! (5 * i + 1))" if "i < n" for i
    by (simp only: event_data.select_convs nth_map_upt_0 [OF that] unat_widen simp_thms)
  with dec show ?thesis by blast
qed

theorem decode_events_passthrough_witness:
  "length [255, 200, 0xFF, 0xFF, 0xFF :: uint8] = 5 * 1 \<and>
   decode_events [255, 200, 0xFF, 0xFF, 0xFF]
     = Inr \<lparr>ev_x = [255], ev_y = [200], ev_p = [1], ev_ts = [8388607]\<rparr>"
proof -
  have h: "length [255, 200, 0xFF, 0xFF, 0xFF :: uint8] = 5 * 1" by simp
  have e: "decode_events [255, 200, 0xFF, 0xFF, 0xFF]
     = Inr \<lparr>ev_x = [255], ev_y = [200], ev_p = [1], ev_ts = [8388607]\<rparr>"
    by code_simp
  show ?thesis
    using decode_events_passthrough [OF h] by (simp only: h e simp_thms)
qed

text \<open>
  C8. Whenever the decoder returns arrays, for a stream of any length, every p is 0 or 1,
  every ts is below \<open>2^23\<close>, and every x and y is below 256.
\<close>

theorem decode_events_bounds:
  "decode_events bytes = Inr ev \<Longrightarrow>
     (\<forall>v \<in> set (ev_p ev). v = 0 \<or> v = 1) \<and>
     (\<forall>v \<in> set (ev_ts ev). v < 2 ^ 23) \<and>
     (\<forall>v \<in> set (ev_x ev). v < 256) \<and>
     (\<forall>v \<in> set (ev_y ev). v < 256)"
proof -
  assume "decode_events bytes = Inr ev"
  then obtain hi where
    hi: "np_binop (OR) (map (\<lambda>v. push_bit 16 (v AND 127)) (slice_from 2 5 (map ucast bytes)))
        (map (push_bit 8) (slice_from 3 5 (map ucast bytes))) = Inr hi"
    and ts: "np_binop (OR) hi (slice_from 4 5 (map ucast bytes)) = Inr (ev_ts ev)"
    and x: "ev_x ev = slice_from 0 5 (map ucast bytes)"
    and y: "ev_y ev = slice_from 1 5 (map ucast bytes)"
    and p: "ev_p ev = map (\<lambda>v. drop_bit 7 (v AND 128)) (slice_from 2 5 (map ucast bytes))"
    by (rule decode_events_cases)
  have px: "v < 256" if "v \<in> set (ev_x ev)" for v
  proof -
    from that obtain b :: uint8 where "v = ucast b" unfolding x by (rule slice_widened)
    then show ?thesis by (simp only: widen_less_256)
  qed
  have py: "v < 256" if "v \<in> set (ev_y ev)" for v
  proof -
    from that obtain b :: uint8 where "v = ucast b" unfolding y by (rule slice_widened)
    then show ?thesis by (simp only: widen_less_256)
  qed
  have pp: "v = 0 \<or> v = 1" if "v \<in> set (ev_p ev)" for v
  proof -
    from that obtain r where "v = drop_bit 7 (r AND 128)"
      unfolding p by (auto simp only: set_map)
    then show ?thesis by (simp only: and_128_of_bool) (cases "bit r 7"; simp)
  qed
  have pts: "v < 2 ^ 23" if "v \<in> set (ev_ts ev)" for v
  proof -
    from np_binop_elements [OF ts that] obtain h c
      where h: "h \<in> set hi" and c: "c \<in> set (slice_from 4 5 (map ucast bytes :: uint32 list))"
        and v: "v = h OR c" by blast
    from np_binop_elements [OF hi h] obtain a b
      where a: "a \<in> set (map (\<lambda>v. push_bit 16 (v AND 127)) (slice_from 2 5 (map ucast bytes :: uint32 list)))"
        and b: "b \<in> set (map (push_bit 8) (slice_from 3 5 (map ucast bytes :: uint32 list)))"
        and hab: "h = a OR b" by blast
    from a obtain r where r: "r \<in> set (slice_from 2 5 (map ucast bytes :: uint32 list))"
      and a': "a = push_bit 16 (r AND 127)" by (auto simp only: set_map)
    from b obtain d where d: "d \<in> set (slice_from 3 5 (map ucast bytes :: uint32 list))"
      and b': "b = push_bit 8 d" by (auto simp only: set_map)
    from r obtain b2 :: uint8 where b2: "r = ucast b2" by (rule slice_widened)
    from d obtain b3 :: uint8 where b3: "d = ucast b3" by (rule slice_widened)
    from c obtain b4 :: uint8 where b4: "c = ucast b4" by (rule slice_widened)
    show ?thesis
      unfolding v hab a' b' b2 b3 b4 by (rule timestamp_less)
  qed
  from px py pp pts show ?thesis by blast
qed

theorem decode_events_bounds_witness:
  "decode_events [255, 255, 255, 255, 255, 255, 255, 255]
     = Inr \<lparr>ev_x = [255, 255], ev_y = [255, 255], ev_p = [1, 1], ev_ts = [8388607, 8388607]\<rparr> \<and>
   ((1 :: uint32) = 0 \<or> (1 :: uint32) = 1) \<and>
   (8388607 :: uint32) < 2 ^ 23 \<and>
   (255 :: uint32) < 256"
proof -
  let ?E = "\<lparr>ev_x = [255, 255], ev_y = [255, 255], ev_p = [1, 1],
             ev_ts = [8388607, 8388607]\<rparr> :: event_data"
  have e: "decode_events [255, 255, 255, 255, 255, 255, 255, 255] = Inr ?E"
    by code_simp
  from decode_events_bounds [OF e]
  have "\<forall>v \<in> set (ev_p ?E). v = 0 \<or> v = 1" and "\<forall>v \<in> set (ev_ts ?E). v < 2 ^ 23"
    and "\<forall>v \<in> set (ev_x ?E). v < 256"
    by blast+
  then have "(1 :: uint32) = 0 \<or> (1 :: uint32) = 1" and "(8388607 :: uint32) < 2 ^ 23"
    and "(255 :: uint32) < 256"
    by (simp_all only: event_data.select_convs list.set ball_simps insert_iff simp_thms)
  with e show ?thesis by (simp only: simp_thms)
qed

text \<open>
  C9, as amended. A stream of length 5 n + 1 is not rejected: the decoder returns n + 1
  values of x and n values of y, p and ts. For length 5 n + 2 it returns n + 1 values of x
  and of y and n values of p and ts. A stream of length 5 n + 3 or 5 n + 4 is rejected with
  \<open>ValueError\<close> when n is at least 2; for n below 2 (lengths 3, 4, 8 and 9) the operands
  of ts are broadcast and the decoder returns n + 1 values of x, y and p and 2 n values
  of ts.
\<close>

theorem decode_events_misaligned:
  "(length bytes = 5 * n + 1 \<longrightarrow>
      (\<exists>ev. decode_events bytes = Inr ev \<and>
         length (ev_x ev) = n + 1 \<and> length (ev_y ev) = n \<and>
         length (ev_p ev) = n \<and> length (ev_ts ev) = n)) \<and>
   (length bytes = 5 * n + 2 \<longrightarrow>
      (\<exists>ev. decode_events bytes = Inr ev \<and>
         length (ev_x ev) = n + 1 \<and> length (ev_y ev) = n + 1 \<and>
         length (ev_p ev) = n \<and> length (ev_ts ev) = n)) \<and>
   ((length bytes = 5 * n + 3 \<or> length bytes = 5 * n + 4) \<and> 2 \<le> n \<longrightarrow>
      decode_events bytes = Inl ValueError) \<and>
   ((length bytes = 5 * n + 3 \<or> length bytes = 5 * n + 4) \<and> n < 2 \<longrightarrow>
      (\<exists>ev. decode_events bytes = Inr ev \<and>
         length (ev_x ev) = n + 1 \<and> length (ev_y ev) = n + 1 \<and>
         length (ev_p ev) = n + 1 \<and> length (ev_ts ev) = 2 * n))"
proof (intro conjI impI)
  assume "length bytes = 5 * n + 1"
  then have len: "length (map ucast bytes :: uint32 list) = 5 * n + 1" by simp
  have l: "length (slice_from k 5 (map ucast bytes :: uint32 list)) = (if k < 1 then n + 1 else n)"
    if "k < 5" for k
    by (rule length_slice_from_5_rem [OF len _ that]) simp
  from decode_events_same_tail_lengths [of bytes n] l [of 0] l [of 1] l [of 2] l [of 3] l [of 4]
  show "\<exists>ev. decode_events bytes = Inr ev \<and>
         length (ev_x ev) = n + 1 \<and> length (ev_y ev) = n \<and>
         length (ev_p ev) = n \<and> length (ev_ts ev) = n"
    by auto
next
  assume "length bytes = 5 * n + 2"
  then have len: "length (map ucast bytes :: uint32 list) = 5 * n + 2" by simp
  have l: "length (slice_from k 5 (map ucast bytes :: uint32 list)) = (if k < 2 then n + 1 else n)"
    if "k < 5" for k
    by (rule length_slice_from_5_rem [OF len _ that]) simp
  from decode_events_same_tail_lengths [of bytes n] l [of 0] l [of 1] l [of 2] l [of 3] l [of 4]
  show "\<exists>ev. decode_events bytes = Inr ev \<and>
         length (ev_x ev) = n + 1 \<and> length (ev_y ev) = n + 1 \<and>
         length (ev_p ev) = n \<and> length (ev_ts ev) = n"
    by auto
next
  assume "(length bytes = 5 * n + 3 \<or> length bytes = 5 * n + 4) \<and> 2 \<le> n"
  then show "decode_events bytes = Inl ValueError"
    using decode_events_rejects_rem_3 [of bytes n] decode_events_rejects_rem_4 [of bytes n]
    by blast
next
  assume "(length bytes = 5 * n + 3 \<or> length bytes = 5 * n + 4) \<and> n < 2"
  then show "\<exists>ev. decode_events bytes = Inr ev \<and>
         length (ev_x ev) = n + 1 \<and> length (ev_y ev) = n + 1 \<and>
         length (ev_p ev) = n + 1 \<and> length (ev_ts ev) = 2 * n"
    using decode_events_broadcast [of bytes n] by blast
qed

theorem decode_events_misaligned_witness:
  "length [1, 2, 3, 4, 5, 6 :: uint8] = 5 * 1 + 1 \<and>
   decode_events [1, 2, 3, 4, 5, 6]
     = Inr \<lparr>ev_x = [1, 6], ev_y = [2], ev_p = [0], ev_ts = [197637]\<rparr> \<and>
   length [1, 2, 3, 4, 5, 6, 7 :: uint8] = 5 * 1 + 2 \<and>
   decode_events [1, 2, 3, 4, 5, 6, 7]
     = Inr \<lparr>ev_x = [1, 6], ev_y = [2, 7], ev_p = [0], ev_ts = [197637]\<rparr> \<and>
   length [1, 2, 3, 4, 5, 6, 7, 8, 9, 10, 11, 12, 13, 14 :: uint8] = 5 * 2 + 4 \<and>
   decode_events [1, 2, 3, 4, 5, 6, 7, 8, 9, 10, 11, 12, 13, 14] = Inl ValueError \<and>
   length [1, 2, 3, 4, 5, 6, 7, 8 :: uint8] = 5 * 1 + 3 \<and>
   decode_events [1, 2, 3, 4, 5, 6, 7, 8]
     = Inr \<lparr>ev_x = [1, 6], ev_y = [2, 7], ev_p = [0, 0], ev_ts = [197637, 525317]\<rparr>"
proof -
  have h1: "length [1, 2, 3, 4, 5, 6 :: uint8] = 5 * 1 + 1" by simp
  have h2: "length [1, 2, 3, 4, 5, 6, 7 :: uint8] = 5 * 1 + 2" by simp
  have h3: "length [1, 2, 3, 4, 5, 6, 7, 8 :: uint8] = 5 * 1 + 3" by simp
  have h4: "length [1, 2, 3, 4, 5, 6, 7, 8, 9, 10, 11, 12, 13, 14 :: uint8] = 5 * 2 + 4" by simp
  have e1: "decode_events [1, 2, 3, 4, 5, 6]
     = Inr \<lparr>ev_x = [1, 6], ev_y = [2], ev_p = [0], ev_ts = [197637]\<rparr>" by code_simp
  have e2: "decode_events [1, 2, 3, 4, 5, 6, 7]
     = Inr \<lparr>ev_x = [1, 6], ev_y = [2, 7], ev_p = [0], ev_ts = [197637]\<rparr>" by code_simp
  have e3: "decode_events [1, 2, 3, 4, 5, 6, 7, 8]
     = Inr \<lparr>ev_x = [1, 6], ev_y = [2, 7], ev_p = [0, 0], ev_ts = [197637, 525317]\<rparr>"
    by code_simp
  from decode_events_misaligned [of "[1, 2, 3, 4, 5, 6, 7, 8, 9, 10, 11, 12, 13, 14]" 2] h4
  have e4: "decode_events [1, 2, 3, 4, 5, 6, 7, 8, 9, 10, 11, 12, 13, 14] = Inl ValueError"
    by simp
  show ?thesis
    using decode_events_misaligned [of "[1, 2, 3, 4, 5, 6]" 1]
      decode_events_misaligned [of "[1, 2, 3, 4, 5, 6, 7]" 1]
      decode_events_misaligned [of "[1, 2, 3, 4, 5, 6, 7, 8]" 1]
    by (simp only: h1 h2 h3 h4 e1 e2 e3 e4 simp_thms)
qed

text \<open>
  The closing words of the claim as first written, that every stream whose length is not a multiple of 5 is
  decoded, fail at 13 bytes: \<open>data[2::5]\<close> has three elements and \<open>data[3::5]\<close> has
  two, and line 77 raises \<open>ValueError\<close>.
\<close>

theorem decode_events_misaligned_counterexample:
  "length [1, 2, 3, 4, 5, 6, 7, 8, 9, 10, 11, 12, 13 :: uint8] = 5 * 2 + 3 \<and>
   decode_events [1, 2, 3, 4, 5, 6, 7, 8, 9, 10, 11, 12, 13] = Inl ValueError"
  by code_simp

text \<open>
  C10. \<open>__getitem__\<close> returns \<open>None\<close> for every instance and index, and \<open>__len__\<close>
  returns \<open>None\<close>: neither raises, neither returns a sample or a count.
\<close>

theorem stubs_return_none:
  "getitem self index = Inr PyNone \<and> len self = Inr PyNone"
  by (simp add: getitem_def len_def)

end
